theory Spec2Isabelle
  imports Main "HOL-Library.Sublist" "HOL-Library.AList"
begin

section \<open>Focus: blocking domains through the hosts file\<close>

text \<open>
  A shallow embedding of \<^verbatim>\<open>focus/focus.py\<close>: the class \<^verbatim>\<open>Focus\<close> with its methods
  \<^verbatim>\<open>_read\<close>, \<^verbatim>\<open>_write\<close>, \<^verbatim>\<open>_backup\<close>, \<^verbatim>\<open>forbid_domains\<close> and \<^verbatim>\<open>restore\<close>, and the
  function \<^verbatim>\<open>parse_time\<close>.

  Modelling conventions.
  \<^item> A Python \<^verbatim>\<open>str\<close> is a \<^typ>\<open>string\<close>; a \<^typ>\<open>char\<close> stands for the code point of the
    same number, so the text considered is the text over the code points below 256.
  \<^item> A file is identified by its path string and holds text. Directories are implicit:
    \<^verbatim>\<open>os.makedirs\<close> changes no file, and \<^verbatim>\<open>os.listdir\<close> returns the names of the files
    directly below a directory. The line separator of the platform is \<^verbatim>\<open>\n\<close> (POSIX).
  \<^item> The only failures are the exceptions which the source raises itself (and the
    \<^verbatim>\<open>ValueError\<close> of \<^verbatim>\<open>int\<close>); every method returns its result together with the
    file system it leaves behind, also when it raises.
  \<^item> \<^verbatim>\<open>hashlib.sha256(bytes(s, encoding="utf-8")).hexdigest()\<close> is library code; it is a
    parameter \<open>sha256_hexdigest\<close> of the methods which use it.
  \<^item> Logging (\<^verbatim>\<open>logger.info\<close>) writes no file and is left out.
\<close>

subsection \<open>Python's string operations\<close>

definition LF :: char where
  "LF = CHR 0x0A"

definition CR :: char where
  "CR = CHR 0x0D"

text \<open>\<^verbatim>\<open>str.isspace\<close> on one character: tab to carriage return, the four separators
  \<^verbatim>\<open>\x1c\<close> to \<^verbatim>\<open>\x1f\<close>, the space, \<^verbatim>\<open>\x85\<close> and the no-break space \<^verbatim>\<open>\xa0\<close>.\<close>

definition isspace :: "char \<Rightarrow> bool" where
  "isspace c =
     (let n = (of_char c :: nat)
      in (9 \<le> n \<and> n \<le> 13) \<or> (28 \<le> n \<and> n \<le> 32) \<or> n = 133 \<or> n = 160)"

text \<open>The decimal digits \<^verbatim>\<open>0\<close> to \<^verbatim>\<open>9\<close>, which \<^verbatim>\<open>int\<close> accepts.\<close>

definition isdecimal :: "char \<Rightarrow> bool" where
  "isdecimal c = (let n = (of_char c :: nat) in 48 \<le> n \<and> n \<le> 57)"

text \<open>\<^verbatim>\<open>str.isdigit\<close> on one character: the decimal digits and the superscript digits
  \<^verbatim>\<open>\xb2\<close>, \<^verbatim>\<open>\xb3\<close> and \<^verbatim>\<open>\xb9\<close>.\<close>

definition isdigit_char :: "char \<Rightarrow> bool" where
  "isdigit_char c =
     (let n = (of_char c :: nat) in isdecimal c \<or> n = 178 \<or> n = 179 \<or> n = 185)"

text \<open>\<^verbatim>\<open>str.isdigit\<close>: at least one character, and all of them digits.\<close>

definition isdigit :: "string \<Rightarrow> bool" where
  "isdigit s = (s \<noteq> [] \<and> list_all isdigit_char s)"

definition startswith :: "string \<Rightarrow> string \<Rightarrow> bool" where
  "startswith s p = prefix p s"

definition endswith :: "string \<Rightarrow> string \<Rightarrow> bool" where
  "endswith s p = suffix p s"

text \<open>\<^verbatim>\<open>str.strip()\<close>: the whitespace of both ends is dropped.\<close>

definition lstrip :: "string \<Rightarrow> string" where
  "lstrip s = dropWhile isspace s"

definition rstrip :: "string \<Rightarrow> string" where
  "rstrip s = rev (dropWhile isspace (rev s))"

definition strip :: "string \<Rightarrow> string" where
  "strip s = rstrip (lstrip s)"

text \<open>\<^verbatim>\<open>sep.join(xs)\<close>.\<close>

fun str_join :: "string \<Rightarrow> string list \<Rightarrow> string" where
  "str_join sep [] = []"
| "str_join sep [x] = x"
| "str_join sep (x # y # ys) = x @ sep @ str_join sep (y # ys)"

subsection \<open>Errors\<close>

datatype error =
    FileNotFoundError string
  | RuntimeError_NotFoundContents
  | RuntimeError_BackupNotSpecified "string list"
  | ArgumentTypeError string
  | ValueError

subsection \<open>Durations: \<^verbatim>\<open>parse_time\<close>\<close>

definition SEC_IN_A_DAY :: int where
  "SEC_IN_A_DAY = 86400"

definition SEC_IN_A_HOUR :: int where
  "SEC_IN_A_HOUR = 3600"

definition SEC_IN_A_MIN :: int where
  "SEC_IN_A_MIN = 60"

definition digit_value :: "char \<Rightarrow> int" where
  "digit_value c = int (of_char c) - 48"

text \<open>\<^verbatim>\<open>int(s)\<close> on a string which has passed \<^verbatim>\<open>isdigit\<close>: the number in base ten when
  every character is a decimal digit, and \<^verbatim>\<open>ValueError\<close> otherwise (a superscript digit).
  Python's integers are unbounded; the limit which an interpreter may put on the number
  of digits of this conversion is not modelled.\<close>

definition py_int :: "string \<Rightarrow> error + int" where
  "py_int s =
     (if s \<noteq> [] \<and> list_all isdecimal s
      then Inr (foldl (\<lambda>a c. 10 * a + digit_value c) 0 s)
      else Inl ValueError)"

text \<open>\<^verbatim>\<open>time_str[:-1]\<close> is \<^term>\<open>butlast time_str\<close>, also on the empty string.\<close>

definition parse_time :: "string \<Rightarrow> error + int" where
  "parse_time time_str =
     (if \<not> isdigit (butlast time_str) then Inl (ArgumentTypeError time_str)
      else if endswith time_str ''d'' then
        (case py_int (butlast time_str) of
           Inl e \<Rightarrow> Inl e | Inr n \<Rightarrow> Inr (0 + n * SEC_IN_A_DAY))
      else if endswith time_str ''h'' then
        (case py_int (butlast time_str) of
           Inl e \<Rightarrow> Inl e | Inr n \<Rightarrow> Inr (0 + n * SEC_IN_A_HOUR))
      else if endswith time_str ''m'' then
        (case py_int (butlast time_str) of
           Inl e \<Rightarrow> Inl e | Inr n \<Rightarrow> Inr (0 + n * SEC_IN_A_MIN))
      else if endswith time_str ''s'' then
        (case py_int (butlast time_str) of
           Inl e \<Rightarrow> Inl e | Inr n \<Rightarrow> Inr (0 + n))
      else Inl (ArgumentTypeError time_str))"

text \<open>The reading of the duration syntax: the number which a string of decimal digits
  denotes in positional notation, the seconds of a unit, and the relation between a
  duration string and its seconds.\<close>

definition decimal_value :: "string \<Rightarrow> int" where
  "decimal_value ds = (\<Sum>i<length ds. digit_value (ds ! i) * 10 ^ (length ds - Suc i))"

definition unit_seconds :: "char \<Rightarrow> int option" where
  "unit_seconds u =
     (if u = CHR ''d'' then Some 86400 else if u = CHR ''h'' then Some 3600
      else if u = CHR ''m'' then Some 60 else if u = CHR ''s'' then Some 1 else None)"

definition spec_duration :: "string \<Rightarrow> int \<Rightarrow> bool" where
  "spec_duration s v =
     (\<exists>ds u k. s = ds @ [u] \<and> ds \<noteq> [] \<and> list_all isdecimal ds \<and>
        unit_seconds u = Some k \<and> v = decimal_value ds * k)"

subsection \<open>Files\<close>

text \<open>The file system: the text of every file, by path. A path listed twice has the
  text of its first entry; \<^const>\<open>AList.update\<close> overwrites that entry.\<close>

type_synonym filesystem = "(string \<times> string) list"

definition os_path_exists :: "filesystem \<Rightarrow> string \<Rightarrow> bool" where
  "os_path_exists fs path = (map_of fs path \<noteq> None)"






text \<open>Reading in text mode translates \<^verbatim>\<open>\r\n\<close> and \<^verbatim>\<open>\r\<close> to \<^verbatim>\<open>\n\<close> (universal
  newlines).\<close>

fun universal_newlines :: "string \<Rightarrow> string" where
  "universal_newlines [] = []"
| "universal_newlines [c] = [if c = CR then LF else c]"
| "universal_newlines (c # d # cs) =
     (if c = CR \<and> d = LF then LF # universal_newlines cs
      else if c = CR then LF # universal_newlines (d # cs)
      else c # universal_newlines (d # cs))"

text \<open>Splitting a text after every \<^verbatim>\<open>\n\<close>; every line keeps its line end, and a text
  which ends in \<^verbatim>\<open>\n\<close> has no empty last line.\<close>

fun split_keepends :: "string \<Rightarrow> string \<Rightarrow> string list" where
  "split_keepends cur [] = (if cur = [] then [] else [cur])"
| "split_keepends cur (c # cs) =
     (if c = LF then (cur @ [c]) # split_keepends [] cs
      else split_keepends (cur @ [c]) cs)"

definition readlines :: "string \<Rightarrow> string list" where
  "readlines text = split_keepends [] (universal_newlines text)"

subsection \<open>The class \<^verbatim>\<open>Focus\<close>\<close>

definition TARGET_FILE_PATH :: string where
  "TARGET_FILE_PATH = ''/etc/hosts''"

definition FOCUS_BOS :: string where
  "FOCUS_BOS = ''# Added by Focus''"

definition FOCUS_EOS :: string where
  "FOCUS_EOS = ''# End of Focus section''"

definition DEFAULT_DST_IP :: string where
  "DEFAULT_DST_IP = ''127.0.0.1''"

record Focus =
  backup_dir :: string
  quiet :: bool
  hosts_contents :: "string list"
  current_hash :: string
  current_backup_path :: string

text \<open>\<^verbatim>\<open>Focus._read\<close>: the loop appends the stripped lines one by one.\<close>

definition Focus_read :: "filesystem \<Rightarrow> string \<Rightarrow> error + string list" where
  "Focus_read fs path =
     (if \<not> os_path_exists fs path then Inl (FileNotFoundError path)
      else case map_of fs path of
          None \<Rightarrow> Inl (FileNotFoundError path)
        | Some text \<Rightarrow>
            Inr (foldl (\<lambda>contents line. contents @ [strip line]) [] (readlines text)))"

text \<open>\<^verbatim>\<open>Focus._write\<close>: the file is overwritten with the lines joined by \<^verbatim>\<open>\n\<close>.\<close>

definition Focus_write :: "string \<Rightarrow> string list \<Rightarrow> filesystem \<Rightarrow> filesystem" where
  "Focus_write path contents fs = AList.update path (str_join [LF] contents) fs"



text \<open>One turn of the first loop of \<^verbatim>\<open>forbid_domains\<close>, on the pair of
  \<^verbatim>\<open>updated_contents\<close> and \<^verbatim>\<open>is_focus_section\<close>.\<close>

definition forbid_step :: "string list \<times> bool \<Rightarrow> string \<Rightarrow> string list \<times> bool" where
  "forbid_step st line =
     (case st of (updated_contents, is_focus_section) \<Rightarrow>
        if startswith line FOCUS_BOS then (updated_contents, True)
        else if is_focus_section \<and> startswith line FOCUS_EOS then (updated_contents, False)
        else if \<not> is_focus_section then (updated_contents @ [line], is_focus_section)
        else (updated_contents, is_focus_section))"

text \<open>\<^verbatim>\<open>Focus.forbid_domains\<close>.\<close>

definition forbid_domains ::
  "Focus \<Rightarrow> string list \<Rightarrow> filesystem \<Rightarrow> (error + unit) \<times> filesystem" where
  "forbid_domains self domains fs =
     (if hosts_contents self = [] then (Inl RuntimeError_NotFoundContents, fs)
      else
        (let (updated_contents, is_focus_section) =
               foldl forbid_step ([], False) (hosts_contents self);
             updated_contents = updated_contents @ [FOCUS_BOS];
             updated_contents =
               foldl (\<lambda>u d. u @ [DEFAULT_DST_IP @ '' '' @ d]) updated_contents domains;
             updated_contents = updated_contents @ [FOCUS_EOS]
         in (Inr (), Focus_write TARGET_FILE_PATH updated_contents fs)))"


subsection \<open>The managed section, declaratively\<close>

text \<open>Line \<open>i\<close> of \<open>ls\<close> lies in a section delimited by the marker tests \<open>isB\<close> and
  \<open>isE\<close> when some begin marker at or before \<open>i\<close> has no end marker strictly between
  itself and \<open>i\<close>. The lines outside are the others, in their order.\<close>

definition in_section_with ::
  "(string \<Rightarrow> bool) \<Rightarrow> (string \<Rightarrow> bool) \<Rightarrow> string list \<Rightarrow> nat \<Rightarrow> bool" where
  "in_section_with isB isE ls i =
     list_ex (\<lambda>j. isB (ls ! j) \<and> list_all (\<lambda>k. \<not> isE (ls ! k)) [Suc j..<i]) [0..<Suc i]"

definition outside_with ::
  "(string \<Rightarrow> bool) \<Rightarrow> (string \<Rightarrow> bool) \<Rightarrow> string list \<Rightarrow> string list" where
  "outside_with isB isE ls =
     map (\<lambda>i. ls ! i) (filter (\<lambda>i. \<not> in_section_with isB isE ls i) [0..<length ls])"

text \<open>After the lines \<open>ls\<close> a section is open when some begin marker in \<open>ls\<close> has no
  end marker after it.\<close>

definition section_open_with ::
  "(string \<Rightarrow> bool) \<Rightarrow> (string \<Rightarrow> bool) \<Rightarrow> string list \<Rightarrow> bool" where
  "section_open_with isB isE ls =
     list_ex (\<lambda>j. isB (ls ! j) \<and> list_all (\<lambda>k. \<not> isE (ls ! k)) [Suc j..<length ls])
       [0..<length ls]"

text \<open>The markers as the source tests them, by prefix.\<close>

definition outside_section :: "string list \<Rightarrow> string list" where
  "outside_section ls =
     outside_with (\<lambda>l. startswith l FOCUS_BOS) (\<lambda>l. startswith l FOCUS_EOS) ls"

text \<open>The markers as exact lines.\<close>

definition outside_section_exact :: "string list \<Rightarrow> string list" where
  "outside_section_exact ls = outside_with (\<lambda>l. l = FOCUS_BOS) (\<lambda>l. l = FOCUS_EOS) ls"

text \<open>The mapping line of a domain, and the lines of a fresh managed section for the
  domains \<open>D\<close>.\<close>

definition mapping_line :: "string \<Rightarrow> string" where
  "mapping_line d = ''127.0.0.1 '' @ d"

definition fresh_section :: "string list \<Rightarrow> string list" where
  "fresh_section D = [FOCUS_BOS] @ map mapping_line D @ [FOCUS_EOS]"




section \<open>Properties\<close>

subsection \<open>Durations\<close>

lemma foldl_decimal_value:
  "foldl (\<lambda>a c. 10 * a + digit_value c) 0 ds = decimal_value ds"
proof (induction ds rule: rev_induct)
  case Nil
  show ?case by (simp add: decimal_value_def)
next
  case (snoc x xs)
  have "decimal_value (xs @ [x]) =
      (\<Sum>i<length xs. digit_value ((xs @ [x]) ! i) * 10 ^ (length xs - i)) + digit_value x"
    by (simp add: decimal_value_def)
  also have "(\<Sum>i<length xs. digit_value ((xs @ [x]) ! i) * 10 ^ (length xs - i)) =
      (\<Sum>i<length xs. 10 * (digit_value (xs ! i) * 10 ^ (length xs - Suc i)))"
  proof (rule sum.cong)
    fix i assume "i \<in> {..<length xs}"
    then have i: "i < length xs" by simp
    then have "length xs - i = Suc (length xs - Suc i)" by simp
    then show "digit_value ((xs @ [x]) ! i) * 10 ^ (length xs - i) =
        10 * (digit_value (xs ! i) * 10 ^ (length xs - Suc i))"
      using i by (simp add: nth_append)
  qed simp
  also have "\<dots> = 10 * decimal_value xs"
    by (simp add: decimal_value_def sum_distrib_left)
  finally show ?case using snoc by simp
qed

lemma py_int_decimal:
  "py_int s = (if s \<noteq> [] \<and> list_all isdecimal s then Inr (decimal_value s) else Inl ValueError)"
  by (simp add: py_int_def foldl_decimal_value)

lemma endswith_snoc: "endswith (ds @ [u]) [c] \<longleftrightarrow> u = c"
  by (auto simp: endswith_def suffix_to_prefix)

lemma isdigit_char_decimal: "list_all isdecimal ds \<Longrightarrow> list_all isdigit_char ds"
  by (simp add: isdigit_char_def list_all_iff)

lemma parse_time_Nil: "parse_time [] = Inl (ArgumentTypeError [])"
  by (simp add: parse_time_def isdigit_def)

lemma parse_time_snoc:
  "parse_time (ds @ [u]) =
     (if \<not> isdigit ds then Inl (ArgumentTypeError (ds @ [u]))
      else case unit_seconds u of
          None \<Rightarrow> Inl (ArgumentTypeError (ds @ [u]))
        | Some k \<Rightarrow> (if list_all isdecimal ds then Inr (decimal_value ds * k) else Inl ValueError))"
  by (simp add: parse_time_def endswith_snoc py_int_decimal unit_seconds_def isdigit_def
      SEC_IN_A_DAY_def SEC_IN_A_HOUR_def SEC_IN_A_MIN_def)

lemma parse_time_iff: "parse_time s = Inr v \<longleftrightarrow> spec_duration s v"
proof (cases s rule: rev_cases)
  case Nil
  then show ?thesis by (simp add: parse_time_Nil spec_duration_def)
next
  case (snoc ds u)
  show ?thesis unfolding snoc
    by (auto simp: parse_time_snoc spec_duration_def isdigit_char_decimal isdigit_def
        split: option.splits)
qed

lemma parse_time_error:
  "parse_time s = Inl e \<Longrightarrow> e = ArgumentTypeError s \<or> e = ValueError"
  by (cases s rule: rev_cases)
    (auto simp: parse_time_Nil parse_time_snoc split: option.splits if_splits)

lemmas parse_time_eval =
  parse_time_def isdigit_def isdigit_char_def isdecimal_def endswith_def py_int_def
  digit_value_def SEC_IN_A_DAY_def SEC_IN_A_HOUR_def SEC_IN_A_MIN_def suffix_to_prefix

text \<open>
  Claim C6. \<^verbatim>\<open>parse_time\<close> returns \<open>v\<close> exactly when the input is a non-empty string of decimal
  digits followed by one of the suffixes \<^verbatim>\<open>d\<close>, \<^verbatim>\<open>h\<close>, \<^verbatim>\<open>m\<close>, \<^verbatim>\<open>s\<close> and \<open>v\<close> is the
  number times 86400, 3600, 60 or 1; every other input raises (\<^verbatim>\<open>ArgumentTypeError\<close>, or
  the \<^verbatim>\<open>ValueError\<close> of \<^verbatim>\<open>int\<close>). The examples of the specification are included.
\<close>

theorem parse_time_duration:
  "(parse_time s = Inr v \<longleftrightarrow> spec_duration s v) \<and>
   ((\<forall>w. \<not> spec_duration s w) \<longrightarrow>
      parse_time s = Inl (ArgumentTypeError s) \<or> parse_time s = Inl ValueError) \<and>
   parse_time ''2d'' = Inr 172800 \<and> parse_time ''3h'' = Inr 10800 \<and>
   parse_time ''4m'' = Inr 240 \<and> parse_time ''5s'' = Inr 5 \<and>
   isl (parse_time ''6dm'') \<and> isl (parse_time ''7.8s'')"
proof -
  have "parse_time s = Inl (ArgumentTypeError s) \<or> parse_time s = Inl ValueError"
    if "\<forall>w. \<not> spec_duration s w"
  proof (cases "parse_time s")
    case (Inl e)
    with parse_time_error [of s e] show ?thesis by auto
  next
    case (Inr w)
    with that show ?thesis by (simp add: parse_time_iff)
  qed
  moreover have "parse_time ''2d'' = Inr 172800" "parse_time ''3h'' = Inr 10800"
    "parse_time ''4m'' = Inr 240" "parse_time ''5s'' = Inr 5"
    "isl (parse_time ''6dm'')" "isl (parse_time ''7.8s'')"
    by (simp_all add: parse_time_eval)
  ultimately show ?thesis by (simp add: parse_time_iff)
qed

theorem parse_time_duration_witness:
  "spec_duration ''2d'' 172800 \<and> (\<forall>w. \<not> spec_duration ''6dm'' w) \<and>
   parse_time ''6dm'' = Inl (ArgumentTypeError ''6dm'')"
proof -
  have "parse_time ''2d'' = Inr 172800" by (simp add: parse_time_eval)
  with parse_time_duration [of "''2d''" 172800, THEN conjunct1]
  have a: "spec_duration ''2d'' 172800" by (rule iffD1)
  have e: "parse_time ''6dm'' = Inl (ArgumentTypeError ''6dm'')"
    by (simp add: parse_time_eval)
  have b: "\<not> spec_duration ''6dm'' w" for w
  proof
    assume "spec_duration ''6dm'' w"
    with parse_time_duration [of "''6dm''" w, THEN conjunct1]
    have "parse_time ''6dm'' = Inr w" by (rule iffD2)
    with e show False by simp
  qed
  from a b e show ?thesis by simp
qed

subsection \<open>The loop of \<^verbatim>\<open>forbid_domains\<close> and the managed section\<close>

lemma list_all_upt_iff: "list_all Q [Suc j..<i] \<longleftrightarrow> (\<forall>k. j < k \<and> k < i \<longrightarrow> Q k)"
  by (simp add: list_all_iff Suc_le_eq Ball_def)

lemma list_ex_upt_iff: "list_ex P [0..<n] \<longleftrightarrow> (\<exists>j<n. P j)"
  by (simp add: list_ex_iff Bex_def)

lemma in_section_with_iff:
  "in_section_with isB isE ls i \<longleftrightarrow>
     (\<exists>j<Suc i. isB (ls ! j) \<and> (\<forall>k. j < k \<and> k < i \<longrightarrow> \<not> isE (ls ! k)))"
  unfolding in_section_with_def list_all_upt_iff list_ex_upt_iff ..

lemma section_open_with_iff:
  "section_open_with isB isE ls \<longleftrightarrow>
     (\<exists>j<length ls. isB (ls ! j) \<and> (\<forall>k. j < k \<and> k < length ls \<longrightarrow> \<not> isE (ls ! k)))"
  unfolding section_open_with_def list_all_upt_iff list_ex_upt_iff ..

lemma in_section_with_snoc_old:
  assumes "i < length ls"
  shows "in_section_with isB isE (ls @ [l]) i = in_section_with isB isE ls i"
proof -
  have old: "(ls @ [l]) ! j = ls ! j" if "j < length ls" for j
    using that by (simp add: nth_append)
  show ?thesis
  proof
    assume "in_section_with isB isE (ls @ [l]) i"
    then obtain j where j: "j < Suc i" "isB ((ls @ [l]) ! j)"
      "\<forall>k. j < k \<and> k < i \<longrightarrow> \<not> isE ((ls @ [l]) ! k)"
      unfolding in_section_with_iff by blast
    from j(1) assms have "j < length ls" by simp
    with j(2) have "isB (ls ! j)" by (simp add: old)
    moreover have "\<forall>k. j < k \<and> k < i \<longrightarrow> \<not> isE (ls ! k)"
    proof (intro allI impI)
      fix k assume k: "j < k \<and> k < i"
      then have "k < length ls" using assms by simp
      moreover from j(3) k have "\<not> isE ((ls @ [l]) ! k)" by blast
      ultimately show "\<not> isE (ls ! k)" by (simp add: old)
    qed
    ultimately show "in_section_with isB isE ls i"
      unfolding in_section_with_iff using j(1) by blast
  next
    assume "in_section_with isB isE ls i"
    then obtain j where j: "j < Suc i" "isB (ls ! j)"
      "\<forall>k. j < k \<and> k < i \<longrightarrow> \<not> isE (ls ! k)"
      unfolding in_section_with_iff by blast
    from j(1) assms have "j < length ls" by simp
    with j(2) have "isB ((ls @ [l]) ! j)" by (simp add: old)
    moreover have "\<forall>k. j < k \<and> k < i \<longrightarrow> \<not> isE ((ls @ [l]) ! k)"
    proof (intro allI impI)
      fix k assume k: "j < k \<and> k < i"
      then have "k < length ls" using assms by simp
      moreover from j(3) k have "\<not> isE (ls ! k)" by blast
      ultimately show "\<not> isE ((ls @ [l]) ! k)" by (simp add: old)
    qed
    ultimately show "in_section_with isB isE (ls @ [l]) i"
      unfolding in_section_with_iff using j(1) by blast
  qed
qed


lemma section_open_with_snoc:
  "section_open_with isB isE (ls @ [l]) =
     (isB l \<or> (section_open_with isB isE ls \<and> \<not> isE l))"
proof -
  have old: "(ls @ [l]) ! j = ls ! j" if "j < length ls" for j
    using that by (simp add: nth_append)
  have new: "(ls @ [l]) ! length ls = l" by simp
  show ?thesis
  proof
    assume "section_open_with isB isE (ls @ [l])"
    then obtain j where j: "j < Suc (length ls)" "isB ((ls @ [l]) ! j)"
      "\<forall>k. j < k \<and> k < Suc (length ls) \<longrightarrow> \<not> isE ((ls @ [l]) ! k)"
      unfolding section_open_with_iff by auto
    show "isB l \<or> (section_open_with isB isE ls \<and> \<not> isE l)"
    proof (cases "j = length ls")
      case True
      with j(2) show ?thesis by simp
    next
      case False
      with j(1) have jl: "j < length ls" by simp
      with j(2) have "isB (ls ! j)" by (simp add: old)
      moreover have "\<forall>k. j < k \<and> k < length ls \<longrightarrow> \<not> isE (ls ! k)"
      proof (intro allI impI)
        fix k assume k: "j < k \<and> k < length ls"
        with j(3) have "\<not> isE ((ls @ [l]) ! k)" by simp
        with k show "\<not> isE (ls ! k)" by (simp add: old)
      qed
      ultimately have "section_open_with isB isE ls"
        unfolding section_open_with_iff using jl by blast
      moreover have "\<not> isE ((ls @ [l]) ! length ls)"
        using j(3) [rule_format, of "length ls"] jl by simp
      then have "\<not> isE l" by simp
      ultimately show ?thesis by simp
    qed
  next
    assume "isB l \<or> (section_open_with isB isE ls \<and> \<not> isE l)"
    then show "section_open_with isB isE (ls @ [l])"
    proof
      assume "isB l"
      then have "isB ((ls @ [l]) ! length ls)" by simp
      moreover have "\<forall>k. length ls < k \<and> k < Suc (length ls) \<longrightarrow> \<not> isE ((ls @ [l]) ! k)"
        by auto
      ultimately have "\<exists>j<Suc (length ls). isB ((ls @ [l]) ! j) \<and>
          (\<forall>k. j < k \<and> k < Suc (length ls) \<longrightarrow> \<not> isE ((ls @ [l]) ! k))"
        by blast
      then show ?thesis unfolding section_open_with_iff by simp
    next
      assume a: "section_open_with isB isE ls \<and> \<not> isE l"
      then obtain j where j: "j < length ls" "isB (ls ! j)"
        "\<forall>k. j < k \<and> k < length ls \<longrightarrow> \<not> isE (ls ! k)"
        unfolding section_open_with_iff by blast
      from j(1,2) have "isB ((ls @ [l]) ! j)" by (simp add: old)
      moreover have "\<forall>k. j < k \<and> k < Suc (length ls) \<longrightarrow> \<not> isE ((ls @ [l]) ! k)"
      proof (intro allI impI)
        fix k assume k: "j < k \<and> k < Suc (length ls)"
        show "\<not> isE ((ls @ [l]) ! k)"
        proof (cases "k = length ls")
          case True
          with a show ?thesis by simp
        next
          case False
          with k have kl: "k < length ls" by simp
          with j(3) k have "\<not> isE (ls ! k)" by blast
          with kl show ?thesis by (simp add: old)
        qed
      qed
      moreover have "j < Suc (length ls)" using j(1) by simp
      ultimately have "\<exists>j<Suc (length ls). isB ((ls @ [l]) ! j) \<and>
          (\<forall>k. j < k \<and> k < Suc (length ls) \<longrightarrow> \<not> isE ((ls @ [l]) ! k))"
        by blast
      then show ?thesis unfolding section_open_with_iff by simp
    qed
  qed
qed

lemma in_section_with_snoc_new:
  "in_section_with isB isE (ls @ [l]) (length ls) =
     (isB l \<or> section_open_with isB isE ls)"
proof -
  have old: "(ls @ [l]) ! j = ls ! j" if "j < length ls" for j
    using that by (simp add: nth_append)
  show ?thesis
  proof
    assume "in_section_with isB isE (ls @ [l]) (length ls)"
    then obtain j where j: "j < Suc (length ls)" "isB ((ls @ [l]) ! j)"
      "\<forall>k. j < k \<and> k < length ls \<longrightarrow> \<not> isE ((ls @ [l]) ! k)"
      unfolding in_section_with_iff by blast
    show "isB l \<or> section_open_with isB isE ls"
    proof (cases "j = length ls")
      case True
      with j(2) show ?thesis by simp
    next
      case False
      with j(1) have jl: "j < length ls" by simp
      with j(2) have "isB (ls ! j)" by (simp add: old)
      moreover have "\<forall>k. j < k \<and> k < length ls \<longrightarrow> \<not> isE (ls ! k)"
      proof (intro allI impI)
        fix k assume k: "j < k \<and> k < length ls"
        with j(3) have "\<not> isE ((ls @ [l]) ! k)" by blast
        with k show "\<not> isE (ls ! k)" by (simp add: old)
      qed
      ultimately have "section_open_with isB isE ls"
        unfolding section_open_with_iff using jl by blast
      then show ?thesis by simp
    qed
  next
    assume "isB l \<or> section_open_with isB isE ls"
    then show "in_section_with isB isE (ls @ [l]) (length ls)"
    proof
      assume "isB l"
      then have "isB ((ls @ [l]) ! length ls)" by simp
      moreover have "\<forall>k. length ls < k \<and> k < length ls \<longrightarrow> \<not> isE ((ls @ [l]) ! k)"
        by auto
      moreover have "length ls < Suc (length ls)" by simp
      ultimately show ?thesis unfolding in_section_with_iff by blast
    next
      assume "section_open_with isB isE ls"
      then obtain j where j: "j < length ls" "isB (ls ! j)"
        "\<forall>k. j < k \<and> k < length ls \<longrightarrow> \<not> isE (ls ! k)"
        unfolding section_open_with_iff by blast
      from j(1,2) have "isB ((ls @ [l]) ! j)" by (simp add: old)
      moreover have "\<forall>k. j < k \<and> k < length ls \<longrightarrow> \<not> isE ((ls @ [l]) ! k)"
      proof (intro allI impI)
        fix k assume k: "j < k \<and> k < length ls"
        with j(3) have "\<not> isE (ls ! k)" by blast
        with k show "\<not> isE ((ls @ [l]) ! k)" by (simp add: old)
      qed
      moreover have "j < Suc (length ls)" using j(1) by simp
      ultimately show ?thesis unfolding in_section_with_iff by blast
    qed
  qed
qed


lemma outside_with_snoc:
  "outside_with isB isE (ls @ [l]) =
     outside_with isB isE ls @ (if isB l \<or> section_open_with isB isE ls then [] else [l])"
proof -
  have "filter (\<lambda>i. \<not> in_section_with isB isE (ls @ [l]) i) [0..<length ls] =
      filter (\<lambda>i. \<not> in_section_with isB isE ls i) [0..<length ls]"
    by (rule filter_cong) (simp_all add: in_section_with_snoc_old)
  moreover have "map (\<lambda>i. (ls @ [l]) ! i) (filter (\<lambda>i. \<not> in_section_with isB isE ls i) [0..<length ls]) =
      map (\<lambda>i. ls ! i) (filter (\<lambda>i. \<not> in_section_with isB isE ls i) [0..<length ls])"
    by (rule map_cong) (simp_all add: nth_append)
  ultimately show ?thesis
    by (simp add: outside_with_def in_section_with_snoc_new)
qed

lemma outside_with_Nil: "outside_with isB isE [] = []"
  by (simp add: outside_with_def)

lemma section_open_with_Nil: "\<not> section_open_with isB isE []"
  by (simp add: section_open_with_def)

lemma forbid_step_pair:
  "forbid_step (u, f) l =
     (u @ (if startswith l FOCUS_BOS \<or> f then [] else [l]),
      startswith l FOCUS_BOS \<or> (f \<and> \<not> startswith l FOCUS_EOS))"
  by (simp add: forbid_step_def)

lemma forbid_loop_outside:
  "foldl forbid_step ([], False) ls =
     (outside_section ls,
      section_open_with (\<lambda>l. startswith l FOCUS_BOS) (\<lambda>l. startswith l FOCUS_EOS) ls)"
proof (induction ls rule: rev_induct)
  case Nil
  show ?case by (simp add: outside_section_def outside_with_Nil section_open_with_Nil)
next
  case (snoc l ls)
  have "foldl forbid_step ([], False) (ls @ [l]) =
      forbid_step (foldl forbid_step ([], False) ls) l"
    by simp
  also have "\<dots> = forbid_step (outside_section ls,
      section_open_with (\<lambda>l. startswith l FOCUS_BOS) (\<lambda>l. startswith l FOCUS_EOS) ls) l"
    by (simp only: snoc)
  also have "\<dots> = (outside_section (ls @ [l]),
      section_open_with (\<lambda>l. startswith l FOCUS_BOS) (\<lambda>l. startswith l FOCUS_EOS) (ls @ [l]))"
    unfolding forbid_step_pair outside_section_def outside_with_snoc section_open_with_snoc
    by simp
  finally show ?case .
qed

subsection \<open>Stripping, reading and writing lines\<close>







lemma lstrip_rstrip_lstrip: "lstrip (rstrip (lstrip x)) = rstrip (lstrip x)"
proof (cases "lstrip x")
  case Nil
  show ?thesis unfolding Nil by (simp add: rstrip_def lstrip_def)
next
  case (Cons h t)
  then have h: "\<not> isspace h"
    unfolding lstrip_def using hd_dropWhile [of isspace x] by (metis list.sel(1) list.distinct(1))
  have "rstrip (h # t) = h # (if \<forall>a\<in>set t. isspace a then [] else rstrip t)"
    using h by (auto simp: rstrip_def dropWhile_append)
  then show ?thesis using h Cons by (simp add: lstrip_def)
qed




lemma split_keepends_shape:
  "LF \<notin> set cur \<Longrightarrow> l \<in> set (split_keepends cur t) \<Longrightarrow> l \<noteq> [] \<and> LF \<notin> set (butlast l)"
proof (induction t arbitrary: cur)
  case Nil
  then show ?case by (auto split: if_splits dest: in_set_butlastD)
next
  case (Cons c t)
  show ?case
  proof (cases "c = LF")
    case True
    with Cons.prems(2) have "l = cur @ [c] \<or> l \<in> set (split_keepends [] t)" by simp
    then show ?thesis
    proof
      assume "l = cur @ [c]"
      with Cons.prems(1) show ?thesis by simp
    next
      assume "l \<in> set (split_keepends [] t)"
      with Cons.IH [of "[]"] show ?thesis by simp
    qed
  next
    case False
    with Cons.prems(2) have "l \<in> set (split_keepends (cur @ [c]) t)" by simp
    moreover from False Cons.prems(1) have "LF \<notin> set (cur @ [c])" by auto
    ultimately show ?thesis using Cons.IH [of "cur @ [c]"] by blast
  qed
qed


lemma foldl_append_map: "foldl (\<lambda>acc x. acc @ [f x]) acc xs = acc @ map f xs"
  by (induction xs arbitrary: acc) simp_all


lemma concat_split_keepends: "concat (split_keepends cur t) = cur @ t"
  by (induction t arbitrary: cur) simp_all

lemma split_keepends_ends:
  "l \<in> set (butlast (split_keepends cur t)) \<Longrightarrow> last l = LF"
proof (induction t arbitrary: cur)
  case Nil
  then show ?case by (simp split: if_splits)
next
  case (Cons c t)
  show ?case
  proof (cases "c = LF")
    case True
    with Cons.prems have "l = cur @ [c] \<or> l \<in> set (butlast (split_keepends [] t))"
      by (simp split: if_splits)
    with True Cons.IH [of "[]"] show ?thesis by auto
  next
    case False
    with Cons.prems Cons.IH [of "cur @ [c]"] show ?thesis by simp
  qed
qed

lemma Focus_read_eq:
  "Focus_read fs path =
     (case map_of fs path of
        None \<Rightarrow> Inl (FileNotFoundError path)
      | Some text \<Rightarrow> Inr (map strip (readlines text)))"
  by (simp add: Focus_read_def os_path_exists_def foldl_append_map split: option.splits)









subsection \<open>The file system\<close>


lemma map_of_write:
  "map_of (Focus_write p c fs) q = (if q = p then Some (str_join [LF] c) else map_of fs q)"
  by (simp add: Focus_write_def update_conv')







subsection \<open>Loading and the empty content\<close>

lemma readlines_concat: "concat (readlines t) = universal_newlines t"
  by (simp add: readlines_def concat_split_keepends)

lemma strip_decomposition:
  "\<exists>a b. x = a @ strip x @ b \<and> (\<forall>c\<in>set a. isspace c) \<and> (\<forall>c\<in>set b. isspace c) \<and>
     (strip x \<noteq> [] \<longrightarrow> \<not> isspace (hd (strip x)) \<and> \<not> isspace (last (strip x)))"
proof -
  let ?a = "takeWhile isspace x"
  let ?y = "lstrip x"
  let ?b = "rev (takeWhile isspace (rev ?y))"
  have "strip x @ ?b = rev (takeWhile isspace (rev ?y) @ dropWhile isspace (rev ?y))"
    by (simp only: rev_append strip_def rstrip_def)
  also have "\<dots> = ?y" by (simp only: takeWhile_dropWhile_id rev_rev_ident)
  finally have y: "?y = strip x @ ?b" by (rule sym)
  have "x = ?a @ ?y" by (simp add: lstrip_def)
  with y have "x = ?a @ strip x @ ?b" by simp
  moreover have "\<forall>c\<in>set ?a. isspace c" by (auto dest: set_takeWhileD)
  moreover have "\<forall>c\<in>set ?b. isspace c" by (auto dest: set_takeWhileD)
  moreover have "\<not> isspace (hd (strip x))" if "strip x \<noteq> []"
  proof -
    have "dropWhile isspace (strip x) = strip x"
      using lstrip_rstrip_lstrip [of x] by (simp add: strip_def lstrip_def)
    with that show ?thesis by (simp add: dropWhile_eq_self_iff)
  qed
  moreover have "\<not> isspace (last (strip x))" if "strip x \<noteq> []"
  proof -
    have "rev (strip x) = dropWhile isspace (rev ?y)" by (simp add: strip_def rstrip_def)
    then have "dropWhile isspace (rev (strip x)) = rev (strip x)" by simp
    with that have "\<not> isspace (hd (rev (strip x)))" by (simp add: dropWhile_eq_self_iff)
    with that show ?thesis by (simp add: hd_rev)
  qed
  ultimately show ?thesis by blast
qed

text \<open>
  Claim C8. \<^verbatim>\<open>Focus._read\<close> raises \<^verbatim>\<open>FileNotFoundError\<close> exactly when the file is absent;
  otherwise it returns the stripped lines of the file in their order, where the lines
  of a text are the pieces which make up the text (after the translation of line ends),
  each ending at its \<^verbatim>\<open>\n\<close>, the last one possibly without.
\<close>

theorem Focus_read_lines:
  "(Focus_read fs path = Inl (FileNotFoundError path) \<longleftrightarrow> \<not> os_path_exists fs path) \<and>
   (isl (Focus_read fs path) \<longleftrightarrow> \<not> os_path_exists fs path) \<and>
   (\<forall>text. map_of fs path = Some text \<longrightarrow>
      Focus_read fs path = Inr (map strip (readlines text)) \<and>
      concat (readlines text) = universal_newlines text \<and>
      (\<forall>l\<in>set (readlines text). l \<noteq> [] \<and> LF \<notin> set (butlast l)) \<and>
      (\<forall>l\<in>set (butlast (readlines text)). last l = LF))"
proof -
  have "l \<noteq> [] \<and> LF \<notin> set (butlast l)" if "l \<in> set (readlines t)" for l t
    using that split_keepends_shape [of "[]" l "universal_newlines t"]
    by (simp add: readlines_def)
  moreover have "last l = LF" if "l \<in> set (butlast (readlines t))" for l t
    using that split_keepends_ends [of l "[]" "universal_newlines t"]
    by (simp add: readlines_def)
  ultimately show ?thesis
    by (auto simp: Focus_read_eq os_path_exists_def readlines_concat split: option.splits)
qed

lemmas read_eval =
  Focus_read_eq readlines_def strip_def lstrip_def rstrip_def isspace_def LF_def CR_def
  os_path_exists_def

theorem Focus_read_lines_witness:
  "Focus_read [(''/etc/hosts'', '' a '' @ [CR, LF] @ ''b'' @ [LF])] ''/etc/hosts'' = Inr [''a'', ''b''] \<and>
   \<not> os_path_exists [] ''/etc/hosts'' \<and>
   Focus_read [] ''/etc/hosts'' = Inl (FileNotFoundError ''/etc/hosts'')"
proof -
  have "map_of [(''/etc/hosts'', '' a '' @ [CR, LF] @ ''b'' @ [LF])] ''/etc/hosts'' =
      Some ('' a '' @ [CR, LF] @ ''b'' @ [LF])" by simp
  with Focus_read_lines [of "[(''/etc/hosts'', '' a '' @ [CR, LF] @ ''b'' @ [LF])]" "''/etc/hosts''"]
  have "Focus_read [(''/etc/hosts'', '' a '' @ [CR, LF] @ ''b'' @ [LF])] ''/etc/hosts'' =
      Inr (map strip (readlines ('' a '' @ [CR, LF] @ ''b'' @ [LF])))" by blast
  moreover have "map strip (readlines ('' a '' @ [CR, LF] @ ''b'' @ [LF])) = [''a'', ''b'']"
    by (simp add: read_eval)
  moreover have n: "\<not> os_path_exists [] ''/etc/hosts''" by (simp add: os_path_exists_def)
  moreover from n Focus_read_lines [of "[]" "''/etc/hosts''"]
  have "Focus_read [] ''/etc/hosts'' = Inl (FileNotFoundError ''/etc/hosts'')" by blast
  ultimately show ?thesis by simp
qed

text \<open>
  Claim C9. \<^verbatim>\<open>forbid_domains\<close> raises its \<^verbatim>\<open>RuntimeError\<close> exactly when the loaded line
  list is empty, and then leaves the file system as it is; a list of empty lines only
  does not raise.
\<close>

theorem forbid_domains_empty_contents:
  "(fst (forbid_domains self D fs) = Inl RuntimeError_NotFoundContents \<longleftrightarrow> hosts_contents self = []) \<and>
   (isl (fst (forbid_domains self D fs)) \<longleftrightarrow> hosts_contents self = []) \<and>
   (hosts_contents self = [] \<longrightarrow> snd (forbid_domains self D fs) = fs) \<and>
   (0 < n \<longrightarrow> fst (forbid_domains (self\<lparr>hosts_contents := replicate n []\<rparr>) D fs) = Inr ())"
  by (cases n) (simp_all add: forbid_domains_def Let_def split: prod.splits)

theorem forbid_domains_empty_contents_witness:
  "forbid_domains \<lparr>backup_dir = ''backups'', quiet = True, hosts_contents = [],
       current_hash = [], current_backup_path = []\<rparr> [''x.com''] [(''/etc/hosts'', [])] =
     (Inl RuntimeError_NotFoundContents, [(''/etc/hosts'', [])]) \<and>
   fst (forbid_domains \<lparr>backup_dir = ''backups'', quiet = True, hosts_contents = replicate 2 [],
       current_hash = [], current_backup_path = []\<rparr> [''x.com''] [(''/etc/hosts'', [LF])]) = Inr ()"
proof -
  let ?s = "\<lparr>backup_dir = ''backups'', quiet = True, hosts_contents = [],
       current_hash = [], current_backup_path = []\<rparr>"
  have "hosts_contents ?s = []" by simp
  with forbid_domains_empty_contents [of ?s "[''x.com'']" "[(''/etc/hosts'', [])]" 2]
  have "fst (forbid_domains ?s [''x.com''] [(''/etc/hosts'', [])]) = Inl RuntimeError_NotFoundContents"
    "snd (forbid_domains ?s [''x.com''] [(''/etc/hosts'', [])]) = [(''/etc/hosts'', [])]"
    by blast+
  then have "forbid_domains ?s [''x.com''] [(''/etc/hosts'', [])] =
     (Inl RuntimeError_NotFoundContents, [(''/etc/hosts'', [])])"
    by (simp add: prod_eq_iff)
  moreover have "(0::nat) < 2" by simp
  with forbid_domains_empty_contents [of ?s "[''x.com'']" "[(''/etc/hosts'', [LF])]" 2]
  have "fst (forbid_domains (?s\<lparr>hosts_contents := replicate 2 []\<rparr>) [''x.com'']
      [(''/etc/hosts'', [LF])]) = Inr ()" by blast
  ultimately show ?thesis by simp
qed

subsection \<open>Restoring and snapshotting\<close>










subsection \<open>Writing the managed section\<close>

lemma BOS_not_EOS: "startswith l FOCUS_BOS \<Longrightarrow> \<not> startswith l FOCUS_EOS"
  by (auto simp: startswith_def FOCUS_BOS_def FOCUS_EOS_def prefix_def)

lemma forbid_loop_fst: "fst (foldl forbid_step ([], False) ls) = outside_section ls"
  by (simp add: forbid_loop_outside)

lemma mapping_lines:
  "foldl (\<lambda>u d. u @ [DEFAULT_DST_IP @ '' '' @ d]) u D = u @ map mapping_line D"
  by (induction D arbitrary: u) (simp_all add: DEFAULT_DST_IP_def mapping_line_def)

lemma forbid_domains_eq:
  "forbid_domains self D fs =
     (if hosts_contents self = [] then (Inl RuntimeError_NotFoundContents, fs)
      else (Inr (), Focus_write TARGET_FILE_PATH
              (outside_section (hosts_contents self) @ fresh_section D) fs))"
  unfolding forbid_domains_def forbid_loop_outside Let_def prod.case mapping_lines
    fresh_section_def
  by simp




lemma forbid_loop_general:
  "set (fst (foldl forbid_step (u, f) xs)) \<subseteq> set u \<union> {l \<in> set xs. \<not> startswith l FOCUS_BOS}"
proof (induction xs arbitrary: u f)
  case Nil
  show ?case by simp
next
  case (Cons x xs)
  have "set (fst (foldl forbid_step (forbid_step (u, f) x) xs)) \<subseteq>
      set (fst (forbid_step (u, f) x)) \<union> {l \<in> set xs. \<not> startswith l FOCUS_BOS}"
    using Cons [of "fst (forbid_step (u, f) x)" "snd (forbid_step (u, f) x)"] by simp
  moreover have "set (fst (forbid_step (u, f) x)) \<subseteq>
      set u \<union> {l \<in> set (x # xs). \<not> startswith l FOCUS_BOS}"
    by (auto simp: forbid_step_pair)
  ultimately show ?case by auto
qed

lemma outside_section_no_BOS: "l \<in> set (outside_section ls) \<Longrightarrow> \<not> startswith l FOCUS_BOS"
  using forbid_loop_general [of "[]" False ls] by (auto simp: forbid_loop_outside)




lemma startswith_self: "startswith l l"
  by (simp add: startswith_def)


lemma outside_with_cong:
  assumes "\<forall>l\<in>set ls. isB l = isB' l \<and> isE l = isE' l"
  shows "outside_with isB isE ls = outside_with isB' isE' ls"
proof -
  have "in_section_with isB isE ls i = in_section_with isB' isE' ls i" if "i < length ls" for i
  proof -
    have b: "isB (ls ! j) = isB' (ls ! j)" if "j < Suc i" for j
      using assms that \<open>i < length ls\<close> by simp
    have e: "isE (ls ! k) = isE' (ls ! k)" if "k < i" for k
      using assms that \<open>i < length ls\<close> by simp
    show ?thesis unfolding in_section_with_iff using b e by auto
  qed
  then have "filter (\<lambda>i. \<not> in_section_with isB isE ls i) [0..<length ls] =
      filter (\<lambda>i. \<not> in_section_with isB' isE' ls i) [0..<length ls]"
    by (intro filter_cong) simp_all
  then show ?thesis by (simp add: outside_with_def)
qed

text \<open>
  Claim C1, amended to a loaded line list which is not empty (on the empty list
  \<^verbatim>\<open>forbid_domains\<close> raises and writes nothing). \<^verbatim>\<open>forbid_domains\<close> returns and the target
  file holds, joined by \<^verbatim>\<open>\n\<close>: the loaded lines outside a managed section in their
  order, the begin marker, the line \<^verbatim>\<open>127.0.0.1 d\<close> for every domain \<open>d\<close> in the order of
  \<open>D\<close>, and the end marker. No other file changes.
\<close>

theorem forbid_domains_writes:
  "(hosts_contents self \<noteq> [] \<longrightarrow>
      fst (forbid_domains self D fs) = Inr () \<and>
      map_of (snd (forbid_domains self D fs)) TARGET_FILE_PATH =
        Some (str_join [LF] (outside_section (hosts_contents self) @ [FOCUS_BOS] @
          map (\<lambda>d. ''127.0.0.1 '' @ d) D @ [FOCUS_EOS])) \<and>
      (\<forall>p. p \<noteq> TARGET_FILE_PATH \<longrightarrow>
         map_of (snd (forbid_domains self D fs)) p = map_of fs p)) \<and>
   (hosts_contents self = [] \<longrightarrow>
      forbid_domains self D fs = (Inl RuntimeError_NotFoundContents, fs))"
proof -
  have "map mapping_line D = map (\<lambda>d. ''127.0.0.1 '' @ d) D"
    by (rule map_cong) (simp_all add: mapping_line_def)
  then have "fresh_section D = [FOCUS_BOS] @ map (\<lambda>d. ''127.0.0.1 '' @ d) D @ [FOCUS_EOS]"
    by (simp only: fresh_section_def)
  then show ?thesis
    by (simp add: forbid_domains_eq map_of_write)
qed

lemmas loop_eval =
  forbid_step_pair startswith_def FOCUS_BOS_def FOCUS_EOS_def

theorem forbid_domains_writes_witness:
  "map_of (snd (forbid_domains \<lparr>backup_dir = ''backups'', quiet = True,
       hosts_contents = [''a'', ''# Added by Focus'', ''127.0.0.1 y.org'', ''# End of Focus section'', ''b''],
       current_hash = [], current_backup_path = []\<rparr> [''x.com''] [])) ''/etc/hosts'' =
     Some (str_join [LF] [''a'', ''b'', ''# Added by Focus'', ''127.0.0.1 x.com'', ''# End of Focus section''])"
proof -
  let ?L = "[''a'', ''# Added by Focus'', ''127.0.0.1 y.org'', ''# End of Focus section'', ''b'']"
  let ?s = "\<lparr>backup_dir = ''backups'', quiet = True, hosts_contents = ?L,
       current_hash = [], current_backup_path = []\<rparr>"
  have "hosts_contents ?s \<noteq> []" by simp
  with forbid_domains_writes [of ?s "[''x.com'']" "[]"]
  have "map_of (snd (forbid_domains ?s [''x.com''] [])) TARGET_FILE_PATH =
      Some (str_join [LF] (outside_section ?L @ [FOCUS_BOS] @
         map (\<lambda>d. ''127.0.0.1 '' @ d) [''x.com''] @ [FOCUS_EOS]))"
    by simp
  moreover have "outside_section ?L = [''a'', ''b'']"
    unfolding forbid_loop_fst [symmetric] by (simp add: loop_eval)
  ultimately show ?thesis
    by (simp add: TARGET_FILE_PATH_def FOCUS_BOS_def FOCUS_EOS_def)
qed

text \<open>The claim C1 as stated fails on the empty line list, which an empty hosts file
  loads as: \<^verbatim>\<open>forbid_domains\<close> raises and the file keeps its text.\<close>

theorem forbid_domains_writes_counterexample:
  "Focus_read [(''/etc/hosts'', [])] ''/etc/hosts'' = Inr [] \<and>
   forbid_domains \<lparr>backup_dir = ''backups'', quiet = True, hosts_contents = [],
       current_hash = [], current_backup_path = []\<rparr> [''x.com''] [(''/etc/hosts'', [])] =
     (Inl RuntimeError_NotFoundContents, [(''/etc/hosts'', [])]) \<and>
   map_of [(''/etc/hosts'', [])] ''/etc/hosts'' \<noteq>
     Some (str_join [LF] [''# Added by Focus'', ''127.0.0.1 x.com'', ''# End of Focus section''])"
  by (simp add: read_eval forbid_domains_def)

text \<open>
  Claim C4, amended. The loop of \<^verbatim>\<open>forbid_domains\<close> takes a line for the begin marker
  when the line starts with \<^verbatim>\<open># Added by Focus\<close>, and, inside a section, for the end marker
  when it starts with \<^verbatim>\<open># End of Focus section\<close>: it keeps the lines outside the section
  delimited by these prefix tests, so no line which starts with the begin marker is
  kept. On lines among which every line starting with a marker is that marker, the
  result is the one of delimiting by the exact marker lines.
\<close>

theorem markers_by_prefix:
  "fst (foldl forbid_step ([], False) ls) = outside_section ls \<and>
   (\<forall>l\<in>set ls. startswith l FOCUS_BOS \<longrightarrow> l \<notin> set (fst (foldl forbid_step ([], False) ls))) \<and>
   ((\<forall>l\<in>set ls. (startswith l FOCUS_BOS \<longrightarrow> l = FOCUS_BOS) \<and>
                  (startswith l FOCUS_EOS \<longrightarrow> l = FOCUS_EOS)) \<longrightarrow>
      fst (foldl forbid_step ([], False) ls) = outside_section_exact ls)"
proof -
  have "outside_section ls = outside_section_exact ls"
    if "\<forall>l\<in>set ls. (startswith l FOCUS_BOS \<longrightarrow> l = FOCUS_BOS) \<and>
                  (startswith l FOCUS_EOS \<longrightarrow> l = FOCUS_EOS)"
    unfolding outside_section_def outside_section_exact_def
    using that by (intro outside_with_cong) (auto simp: startswith_self)
  moreover have "l \<notin> set (outside_section ls)" if "startswith l FOCUS_BOS" for l
    using that outside_section_no_BOS [of l ls] by blast
  ultimately show ?thesis by (simp add: forbid_loop_fst)
qed

theorem markers_by_prefix_witness:
  "fst (foldl forbid_step ([], False) [''a'', ''# Added by Focus'', ''x'', ''# End of Focus section'', ''b'']) =
     [''a'', ''b''] \<and>
   outside_section_exact [''a'', ''# Added by Focus'', ''x'', ''# End of Focus section'', ''b''] = [''a'', ''b'']"
proof -
  let ?L = "[''a'', ''# Added by Focus'', ''x'', ''# End of Focus section'', ''b'']"
  have h: "\<forall>l\<in>set ?L. (startswith l FOCUS_BOS \<longrightarrow> l = FOCUS_BOS) \<and>
                  (startswith l FOCUS_EOS \<longrightarrow> l = FOCUS_EOS)"
    by (simp add: loop_eval)
  have e: "fst (foldl forbid_step ([], False) ?L) = [''a'', ''b'']"
    by (simp add: loop_eval)
  from markers_by_prefix [of ?L] h
  have "fst (foldl forbid_step ([], False) ?L) = outside_section_exact ?L" by blast
  with e show ?thesis by simp
qed

text \<open>The claim C4 as stated fails: a line which starts with the begin marker and goes
  on is dropped as a marker, together with the lines after it.\<close>

theorem markers_exact_counterexample:
  "fst (foldl forbid_step ([], False) [''a'', ''# Added by Focus (old)'', ''b'']) = [''a''] \<and>
   ''# Added by Focus (old)'' \<noteq> FOCUS_BOS \<and> ''# Added by Focus (old)'' \<noteq> FOCUS_EOS \<and>
   outside_section_exact [''a'', ''# Added by Focus (old)'', ''b''] =
     [''a'', ''# Added by Focus (old)'', ''b'']"
  by (simp add: loop_eval outside_section_exact_def outside_with_def in_section_with_def upt_rec)

subsection \<open>A block followed by a restore\<close>



















subsection \<open>Applying a block twice\<close>











end
